theory Spec2Isabelle
  imports
    Complex_Main
    "HOL-Library.AList"
    "HOL-Library.Char_ord"
    "HOL-Library.Product_Lexorder"
    "HOL-Library.Sublist"
begin

section \<open>Data model\<close>

text \<open>
  The Pydantic models and dataclasses of the application become records. A field whose
  name is shared by two classes, or is a keyword of the theory language, carries the
  prefix of its class (\<open>seg_text\<close> for \<open>TranscriptSegment.text\<close>, \<open>ins_type\<close> for
  \<open>Insight.type\<close>, \<open>si_session_id\<close> for \<open>SessionInsights.session_id\<close>, ...).

  Python \<open>float\<close> values (timestamps, confidences) are modelled as \<open>real\<close>: NaN,
  infinities and rounding are outside the model. Python \<open>int\<close> is \<open>int\<close>, \<open>str\<close> is
  \<open>string\<close>, \<open>X | None\<close> is \<open>X option\<close>. A \<open>dict\<close> is an association list in
  insertion order, which is the order Python iterates it in.
\<close>

record TranscriptSegment =
  seg_text :: string
  speaker :: "string option"
  is_user :: bool
  timestamp :: real

datatype InsightType =
  PRICING_OBJECTION | BUYING_SIGNAL | COMPETITOR_MENTION | NEXT_STEP | STALL_TACTIC

fun type_value :: "InsightType \<Rightarrow> string" where
  "type_value PRICING_OBJECTION = ''pricing_objection''"
| "type_value BUYING_SIGNAL = ''buying_signal''"
| "type_value COMPETITOR_MENTION = ''competitor_mention''"
| "type_value NEXT_STEP = ''next_step''"
| "type_value STALL_TACTIC = ''stall_tactic''"

record Insight =
  ins_type :: InsightType
  ins_confidence :: real
  matched_text :: string
  matched_phrase :: string
  ins_speaker :: "string option"
  ins_timestamp :: "real option"
  ins_suggestion :: string

record SessionInsights =
  si_session_id :: string
  insights :: "Insight list"
  total_insights :: int
  summary :: "(string \<times> int) list"

record SessionData =
  session_id :: string
  segments :: "TranscriptSegment list"
  segment_count :: int
  latest_insights :: "SessionInsights option"

text \<open>\<open>SessionStore._sessions\<close>: the dict from session id to \<open>SessionData\<close>.\<close>

type_synonym SessionStore = "(string \<times> SessionData) list"

section \<open>Session aggregate: ingestion\<close>

text \<open>\<open>SessionData(session_id=session_id)\<close> with the dataclass defaults.\<close>

definition new_session :: "string \<Rightarrow> SessionData" where
  "new_session sid =
     \<lparr>session_id = sid, segments = [], segment_count = 0, latest_insights = None\<rparr>"

text \<open>
  \<open>SessionData.add_segments\<close>: the set of existing keys is computed once, from the
  segments held before the call; the new segments are filtered against it, appended, and
  counted. The result is the returned count and the updated aggregate.
\<close>

definition add_segments :: "SessionData \<Rightarrow> TranscriptSegment list \<Rightarrow> int \<times> SessionData" where
  "add_segments self new_segments =
     (let existing_keys = (\<lambda>s. (timestamp s, seg_text s)) ` set (segments self);
          unique = filter (\<lambda>s. (timestamp s, seg_text s) \<notin> existing_keys) new_segments
      in (int (length unique),
          self\<lparr>segments := segments self @ unique,
               segment_count := segment_count self + int (length unique)\<rparr>))"

text \<open>
  \<open>SessionStore.add_segments\<close>: create the aggregate when the id is unknown, then
  delegate. A new key goes to the end of the dict, an existing one keeps its place.
\<close>

definition store_add_segments ::
    "SessionStore \<Rightarrow> string \<Rightarrow> TranscriptSegment list \<Rightarrow> int \<times> SessionStore" where
  "store_add_segments st sid segs =
     (let session = (case map_of st sid of None \<Rightarrow> new_session sid | Some sd \<Rightarrow> sd);
          (n, session') = add_segments session segs
      in (n, AList.update sid session' st))"

definition get_session :: "SessionStore \<Rightarrow> string \<Rightarrow> SessionData option" where
  "get_session st sid = map_of st sid"

section \<open>Rule catalog\<close>

text \<open>
  The frozen dataclass \<open>Rule\<close> and the five rule lists, in the order of the source.
  The suggestions are carried, never inspected. Their em dash (U+2014), which is not an
  8-bit character, is written as its three UTF-8 bytes.
\<close>

datatype Rule = Rule (phrase: string) (confidence: real) (suggestion: string)

definition em_dash :: string where
  "em_dash = [CHR 0xE2, CHR 0x80, CHR 0x94]"

definition PRICING_OBJECTION_RULES :: "Rule list" where
  "PRICING_OBJECTION_RULES =
    [Rule (''too expensive'') 0.9
       (''Acknowledge the concern, then pivot to ROI and value delivered.''),
     Rule (''over our budget'') 0.9
       (''Ask what their budget range is '' @ em_dash @ '' explore flexible pricing or phased rollout.''),
     Rule (''out of budget'') 0.9
       (''Ask what their budget range is '' @ em_dash @ '' explore flexible pricing or phased rollout.''),
     Rule (''can't afford'') 0.85
       (''Explore payment plans or a smaller starter package.''),
     Rule (''cost is too high'') 0.85
       (''Break down the cost per user/month to reframe the investment.''),
     Rule (''pricing is steep'') 0.8
       (''Compare against the cost of NOT solving the problem.''),
     Rule (''cheaper option'') 0.8
       (''Differentiate on value, support, and total cost of ownership.''),
     Rule (''price is a concern'') 0.8
       (''Validate their concern, then present a business case with projected savings.''),
     Rule (''budget constraints'') 0.75
       (''Propose a phased implementation to spread costs.''),
     Rule (''not in the budget'') 0.85
       (''Ask about their budget cycle '' @ em_dash @ '' can this be planned for next quarter?''),
     Rule (''spend that much'') 0.7
       (''Anchor the conversation on business impact, not just price.'')]"

definition BUYING_SIGNAL_RULES :: "Rule list" where
  "BUYING_SIGNAL_RULES =
    [Rule (''send me a proposal'') 0.95
       (''Prepare and send the proposal within 24 hours. Strike while interest is hot.''),
     Rule (''send a proposal'') 0.95
       (''Prepare and send the proposal within 24 hours. Strike while interest is hot.''),
     Rule (''ready to move forward'') 0.95
       (''Confirm the scope and timeline, then initiate onboarding steps.''),
     Rule (''move forward'') 0.9
       (''Clarify the next step '' @ em_dash @ '' contract review, pilot, or sign-off.''),
     Rule (''sign the contract'') 0.95
       (''Prepare the contract and schedule a signing call.''),
     Rule (''start a pilot'') 0.9
       (''Define the pilot scope, success criteria, and timeline.''),
     Rule (''when can we start'') 0.9
       (''Provide a concrete onboarding timeline.''),
     Rule (''how soon can'') 0.85
       (''This signals urgency '' @ em_dash @ '' respond with a fast-track option.''),
     Rule (''ready to buy'') 0.95
       (''Close the deal. Confirm the order details and next steps.''),
     Rule (''let's do it'') 0.85
       (''Confirm their decision and outline the immediate next steps.''),
     Rule (''looks good'') 0.6
       (''Positive signal '' @ em_dash @ '' ask a closing question to advance the deal.''),
     Rule (''interested in'') 0.5
       (''Moderate interest '' @ em_dash @ '' explore what specifically excites them.''),
     Rule (''i like'') 0.5
       (''Positive sentiment '' @ em_dash @ '' reinforce the value they see.'')]"

definition COMPETITOR_MENTION_RULES :: "Rule list" where
  "COMPETITOR_MENTION_RULES =
    [Rule (''competitor'') 0.8
       (''Ask what they like about the competitor, then differentiate on your strengths.''),
     Rule (''alternative solution'') 0.75
       (''Understand their evaluation criteria and position your unique advantages.''),
     Rule (''other vendor'') 0.8
       (''Ask where they are in the evaluation '' @ em_dash @ '' are they actively comparing?''),
     Rule (''other provider'') 0.8
       (''Ask where they are in the evaluation '' @ em_dash @ '' are they actively comparing?''),
     Rule (''looking at other'') 0.7
       (''Understand their timeline and what would make them choose you.''),
     Rule (''comparing with'') 0.8
       (''Ask what criteria matter most '' @ em_dash @ '' tailor your pitch accordingly.''),
     Rule (''evaluated another'') 0.75
       (''Ask what they learned and how you can address any gaps.''),
     Rule (''switching from'') 0.85
       (''They're already considering a change '' @ em_dash @ '' understand their pain points with the current solution.'')]"

definition NEXT_STEP_RULES :: "Rule list" where
  "NEXT_STEP_RULES =
    [Rule (''schedule a follow-up'') 0.9
       (''Suggest specific dates/times. Don't leave it open-ended.''),
     Rule (''book a meeting'') 0.9
       (''Send a calendar invite before they leave the call.''),
     Rule (''set up a demo'') 0.9
       (''Confirm the demo scope and who should attend.''),
     Rule (''loop in my team'') 0.85
       (''Great '' @ em_dash @ '' ask who specifically and offer to present to them.''),
     Rule (''get back to you'') 0.6
       (''Pin down a specific date: 'When works best to reconnect?'' @ [CHR 0x27]),
     Rule (''follow up next week'') 0.8
       (''Confirm the day and send a calendar hold.''),
     Rule (''talk to my manager'') 0.7
       (''Offer to join the internal discussion or provide a one-pager for their manager.''),
     Rule (''internal discussion'') 0.65
       (''Ask what information they need for the internal discussion.''),
     Rule (''discuss internally'') 0.65
       (''Offer a concise summary document they can share internally.'')]"

definition STALL_TACTIC_RULES :: "Rule list" where
  "STALL_TACTIC_RULES =
    [Rule (''not a priority right now'') 0.85
       (''Ask what IS a priority and whether this problem will get worse over time.''),
     Rule (''maybe next quarter'') 0.7
       (''Understand what changes next quarter and create urgency for acting sooner.''),
     Rule (''need more time'') 0.6
       (''Ask what specific information they need to make a decision.''),
     Rule (''think about it'') 0.65
       (''Ask what specific concerns remain '' @ em_dash @ '' try to address them now.''),
     Rule (''not ready yet'') 0.7
       (''Ask what would make them ready and what's blocking the decision.''),
     Rule (''timing isn't right'') 0.75
       (''Explore what would make the timing right '' @ em_dash @ '' is there a triggering event?''),
     Rule (''circle back later'') 0.6
       (''Pin down a specific date and send a calendar invite.'')]"

text \<open>\<open>_RULE_MAP\<close>, iterated with \<open>.items()\<close> in insertion order.\<close>

definition RULE_MAP :: "(InsightType \<times> Rule list) list" where
  "RULE_MAP =
    [(PRICING_OBJECTION, PRICING_OBJECTION_RULES),
     (BUYING_SIGNAL, BUYING_SIGNAL_RULES),
     (COMPETITOR_MENTION, COMPETITOR_MENTION_RULES),
     (NEXT_STEP, NEXT_STEP_RULES),
     (STALL_TACTIC, STALL_TACTIC_RULES)]"

section \<open>Pattern engine\<close>

text \<open>
  Texts are modelled as ASCII strings: \<open>str.lower()\<close> maps \<open>A\<close>..\<open>Z\<close> to
  \<open>a\<close>..\<open>z\<close> and leaves every other character as it is.
\<close>

definition lower_char :: "char \<Rightarrow> char" where
  "lower_char c =
     (if CHR ''A'' \<le> c \<and> c \<le> CHR ''Z'' then char_of (of_char c + (32::nat)) else c)"

definition lower :: "string \<Rightarrow> string" where
  "lower s = map lower_char s"

text \<open>Python's \<open>p in t\<close> on strings: \<open>p\<close> occurs in \<open>t\<close> as a contiguous run.\<close>

fun str_contains :: "string \<Rightarrow> string \<Rightarrow> bool" where
  "str_contains p [] = (p = [])"
| "str_contains p (c # cs) = (prefix p (c # cs) \<or> str_contains p cs)"

text \<open>
  Python's \<open>xs[i:]\<close>: a negative start counts from the end and is clamped at the
  front, a start beyond the end gives the empty list.
\<close>

definition slice_from :: "int \<Rightarrow> 'a list \<Rightarrow> 'a list" where
  "slice_from i xs =
     (if i < 0 then drop (nat (int (length xs) + i)) xs else drop (nat i) xs)"

record InsightEngine =
  window_size :: int

text \<open>The sliding window at the head of \<open>analyze_segments\<close>.\<close>

definition target_segments :: "InsightEngine \<Rightarrow> TranscriptSegment list \<Rightarrow> TranscriptSegment list" where
  "target_segments self segs =
     (if window_size self > 0 \<and> int (length segs) > window_size self
      then slice_from (- window_size self) segs
      else segs)"

text \<open>
  The scanning loops. The loop state is the pair of the \<open>insights\<close> list and the
  \<open>seen\<close> set; the three nested \<open>for\<close> loops are three nested folds. The innermost
  body is \<open>rule_step\<close>.
\<close>

type_synonym dedup_key = "string \<times> string \<times> real"

type_synonym scan_state = "Insight list \<times> dedup_key set"

definition rule_step ::
    "TranscriptSegment \<Rightarrow> string \<Rightarrow> InsightType \<Rightarrow> Rule \<Rightarrow> scan_state \<Rightarrow> scan_state" where
  "rule_step segment text_lower insight_type rule acc =
     (case acc of (found, seen) \<Rightarrow>
        if str_contains (phrase rule) text_lower then
          (let dedup_key = (type_value insight_type, phrase rule, timestamp segment) in
           if dedup_key \<in> seen then (found, seen)
           else
             (found @
                [\<lparr>ins_type = insight_type,
                  ins_confidence = confidence rule,
                  matched_text = seg_text segment,
                  matched_phrase = phrase rule,
                  ins_speaker = speaker segment,
                  ins_timestamp = Some (timestamp segment),
                  ins_suggestion = suggestion rule\<rparr>],
              insert dedup_key seen))
        else (found, seen))"

definition type_step ::
    "TranscriptSegment \<Rightarrow> string \<Rightarrow> InsightType \<times> Rule list \<Rightarrow> scan_state \<Rightarrow> scan_state" where
  "type_step segment text_lower item acc =
     (case item of (insight_type, rules) \<Rightarrow>
        fold (rule_step segment text_lower insight_type) rules acc)"

definition segment_step :: "TranscriptSegment \<Rightarrow> scan_state \<Rightarrow> scan_state" where
  "segment_step segment acc =
     (let text_lower = lower (seg_text segment)
      in fold (type_step segment text_lower) RULE_MAP acc)"

definition scan_segments :: "TranscriptSegment list \<Rightarrow> scan_state" where
  "scan_segments target = fold segment_step target ([], {})"

text \<open>
  The sort key \<open>(i.timestamp or 0, -i.confidence)\<close>. A timestamp that is \<open>None\<close>
  counts as 0; a timestamp 0.0 is falsy too and is replaced by 0, the same number.
  \<open>list.sort\<close> is stable, as is \<open>sort_key\<close>; tuples compare lexicographically.
\<close>

definition effective_timestamp :: "Insight \<Rightarrow> real" where
  "effective_timestamp i = (case ins_timestamp i of None \<Rightarrow> 0 | Some t \<Rightarrow> t)"

definition insight_sort_key :: "Insight \<Rightarrow> real \<times> real" where
  "insight_sort_key i = (effective_timestamp i, - ins_confidence i)"

text \<open>
  \<open>d[k] += n\<close> on a \<open>defaultdict(int)\<close> or a \<open>Counter\<close>: an existing key keeps
  its place, a new key is appended with the value \<open>0 + n\<close>.
\<close>

fun dict_add :: "'k \<Rightarrow> int \<Rightarrow> ('k \<times> int) list \<Rightarrow> ('k \<times> int) list" where
  "dict_add k n [] = [(k, n)]"
| "dict_add k n ((k', v) # ps) =
     (if k' = k then (k', v + n) # ps else (k', v) # dict_add k n ps)"

text \<open>
  \<open>collections.Counter\<close> over an iterable, turned into a dict: one entry per
  distinct key, in order of first occurrence.
\<close>

definition Counter :: "'k list \<Rightarrow> ('k \<times> int) list" where
  "Counter xs = fold (\<lambda>k. dict_add k 1) xs []"

text \<open>\<open>InsightEngine.analyze_segments\<close>. The log line has no effect on the result.\<close>

definition analyze_segments ::
    "InsightEngine \<Rightarrow> TranscriptSegment list \<Rightarrow> string \<Rightarrow> SessionInsights" where
  "analyze_segments self segs sid =
     (let target = target_segments self segs;
          found = sort_key insight_sort_key (fst (scan_segments target));
          type_counts = Counter (map (\<lambda>i. type_value (ins_type i)) found)
      in \<lparr>si_session_id = sid,
          insights = found,
          total_insights = int (length found),
          summary = type_counts\<rparr>)"

text \<open>The module-level singleton \<open>insight_engine = InsightEngine(window_size=0)\<close>.\<close>

definition insight_engine :: InsightEngine where
  "insight_engine = \<lparr>window_size = 0\<rparr>"

section \<open>Session aggregate and registry: analysis\<close>

text \<open>\<open>SessionData.ordered_segments\<close>: \<open>sorted\<close> by timestamp, stable.\<close>

definition ordered_segments :: "SessionData \<Rightarrow> TranscriptSegment list" where
  "ordered_segments self = sort_key timestamp (segments self)"

definition run_analysis :: "SessionStore \<Rightarrow> string \<Rightarrow> SessionInsights option \<times> SessionStore" where
  "run_analysis st sid =
     (case map_of st sid of
        None \<Rightarrow> (None, st)
      | Some session \<Rightarrow>
          (let result = analyze_segments insight_engine (ordered_segments session) sid
           in (Some result, AList.update sid (session\<lparr>latest_insights := Some result\<rparr>) st)))"

definition store_get_insights :: "SessionStore \<Rightarrow> string \<Rightarrow> SessionInsights option" where
  "store_get_insights st sid =
     (case map_of st sid of None \<Rightarrow> None | Some session \<Rightarrow> latest_insights session)"

definition list_sessions :: "SessionStore \<Rightarrow> string list" where
  "list_sessions st = map fst st"

text \<open>\<open>SessionStore.get_stats\<close>: the pair (active_sessions, total_segments).\<close>

definition get_stats :: "SessionStore \<Rightarrow> int \<times> int" where
  "get_stats st = (int (length st), sum_list (map (\<lambda>(k, s). segment_count s) st))"

text \<open>
  The operations of \<open>SessionStore\<close> as commands, and the stores that a sequence of
  them builds from the empty store of \<open>SessionStore.__init__\<close>. The four read
  operations return a value and leave the store as it is.
\<close>

datatype store_op =
    AddSegments string "TranscriptSegment list"
  | GetSession string
  | RunAnalysis string
  | GetInsights string
  | ListSessions
  | GetStats

fun exec :: "store_op \<Rightarrow> SessionStore \<Rightarrow> SessionStore" where
  "exec (AddSegments sid segs) st = snd (store_add_segments st sid segs)"
| "exec (GetSession sid) st = st"
| "exec (RunAnalysis sid) st = snd (run_analysis st sid)"
| "exec (GetInsights sid) st = st"
| "exec ListSessions st = st"
| "exec GetStats st = st"

inductive reachable :: "SessionStore \<Rightarrow> bool" where
  init: "reachable []"
| step: "reachable st \<Longrightarrow> reachable (exec op st)"

text \<open>The counter of every aggregate in the store agrees with its list.\<close>

definition count_ok :: "SessionStore \<Rightarrow> bool" where
  "count_ok st = list_all (\<lambda>(k, sd). segment_count sd = int (length (segments sd))) st"

section \<open>Session aggregate: speaker analytics\<close>

text \<open>
  \<open>str.strip()\<close> and \<open>str.split()\<close> with no argument work on whitespace; in ASCII
  these are the characters 9 to 13, 28 to 31 and the space.
\<close>

definition is_space :: "char \<Rightarrow> bool" where
  "is_space c = ((of_char c :: nat) \<in> {9, 10, 11, 12, 13, 28, 29, 30, 31, 32})"

definition strip :: "string \<Rightarrow> string" where
  "strip s = rev (dropWhile is_space (rev (dropWhile is_space s)))"

text \<open>\<open>s.split()\<close>: the maximal runs of non-whitespace characters; \<open>cur\<close> is the run being read.\<close>

fun split_from :: "string \<Rightarrow> string \<Rightarrow> string list" where
  "split_from cur [] = (if cur = [] then [] else [cur])"
| "split_from cur (c # cs) =
     (if is_space c then (if cur = [] then split_from [] cs else cur # split_from [] cs)
      else split_from (cur @ [c]) cs)"

definition split :: "string \<Rightarrow> string list" where
  "split s = split_from [] s"

definition UNKNOWN_SPEAKER :: string where
  "UNKNOWN_SPEAKER = ''UNKNOWN''"

text \<open>
  \<open>SessionData._speaker_label\<close>:
  \<^verbatim>\<open>segment.speaker.strip() if segment.speaker else _UNKNOWN_SPEAKER\<close>.
  The condition is Python truthiness of the unstripped label: \<open>None\<close> and the empty
  string are falsy, every other string is truthy.
\<close>

definition speaker_label :: "TranscriptSegment \<Rightarrow> string" where
  "speaker_label segment =
     (case speaker segment of
        None \<Rightarrow> UNKNOWN_SPEAKER
      | Some s \<Rightarrow> if s = [] then UNKNOWN_SPEAKER else strip s)"

record SpeakerStats =
  stat_speaker :: string
  stat_segment_count :: int
  word_count :: int
  talk_ratio :: real

text \<open>
  \<open>round(x, 1)\<close>, taken on the exact value: to the nearest tenth, a tie going to the
  even tenth. What the binary representation of \<open>x\<close> adds to this is outside the model.
\<close>

definition round_half_even :: "real \<Rightarrow> int" where
  "round_half_even x =
     (let f = \<lfloor>x\<rfloor>; d = x - of_int f
      in if d < 1 / 2 then f else if 1 / 2 < d then f + 1 else if even f then f else f + 1)"

definition round1 :: "real \<Rightarrow> real" where
  "round1 x = of_int (round_half_even (x * 10)) / 10"

text \<open>
  \<open>SessionData.get_speaker_stats\<close>. The loop state is the pair of the two dicts
  \<open>speaker_segments\<close> and \<open>speaker_words\<close>.
\<close>

definition speaker_step ::
    "TranscriptSegment \<Rightarrow> (string \<times> int) list \<times> (string \<times> int) list \<Rightarrow>
     (string \<times> int) list \<times> (string \<times> int) list" where
  "speaker_step seg acc =
     (case acc of (speaker_segments, speaker_words) \<Rightarrow>
        (let label = speaker_label seg
         in (dict_add label 1 speaker_segments,
             dict_add label (int (length (split (seg_text seg)))) speaker_words)))"

definition get_speaker_stats :: "SessionData \<Rightarrow> SpeakerStats list" where
  "get_speaker_stats self =
     (case fold speaker_step (segments self) ([], []) of (speaker_segments, speaker_words) \<Rightarrow>
        (let total = sum_list (map snd speaker_words);
             total_words = (if total = 0 then 1 else total)
         in map (\<lambda>(spk, words).
                  \<lparr>stat_speaker = spk,
                   stat_segment_count =
                     (case map_of speaker_segments spk of None \<Rightarrow> 0 | Some n \<Rightarrow> n),
                   word_count = words,
                   talk_ratio = round1 (real_of_int words / real_of_int total_words * 100)\<rparr>)
                speaker_words))"

section \<open>Insights endpoint\<close>

text \<open>
  \<open>get_insights\<close> of \<open>app/api/insights.py\<close>. \<open>_get_session_or_404\<close> raises the 404;
  \<open>insights.insights\<close> on \<open>None\<close> would raise \<open>AttributeError\<close>. The result is the
  response or the error, and the store after the call.
\<close>

datatype api_error = HTTP_404_NOT_FOUND | AttributeError

definition api_get_insights ::
    "SessionStore \<Rightarrow> string \<Rightarrow> InsightType option \<Rightarrow> real \<Rightarrow>
     (api_error + SessionInsights) \<times> SessionStore" where
  "api_get_insights st sid ty min_confidence =
     (case get_session st sid of
        None \<Rightarrow> (Inl HTTP_404_NOT_FOUND, st)
      | Some session \<Rightarrow>
          (case (case store_get_insights st sid of
                   None \<Rightarrow> run_analysis st sid
                 | Some cached \<Rightarrow> (Some cached, st)) of
             (None, st') \<Rightarrow> (Inl AttributeError, st')
           | (Some found, st') \<Rightarrow>
               (let filtered0 = insights found;
                    filtered1 = (case ty of
                                   None \<Rightarrow> filtered0
                                 | Some t \<Rightarrow> filter (\<lambda>i. ins_type i = t) filtered0);
                    filtered2 = (if min_confidence > 0
                                 then filter (\<lambda>i. ins_confidence i \<ge> min_confidence) filtered1
                                 else filtered1);
                    type_counts = Counter (map (\<lambda>i. type_value (ins_type i)) filtered2)
                in (Inr \<lparr>si_session_id = sid,
                         insights = filtered2,
                         total_insights = int (length filtered2),
                         summary = type_counts\<rparr>,
                    st'))))"

section \<open>The scan as the specification words it\<close>

text \<open>
  The specification describes the scan without the \<open>seen\<close> set: every fragment is
  tested against every (category, rule) pair of the catalog, in order; a match emits a
  Finding unless a Finding with the same (category, phrase, timestamp) was emitted
  before in the run. \<open>emit_spec\<close> follows these words, to be compared with
  \<open>scan_segments\<close>.
\<close>

definition scan_order ::
    "TranscriptSegment list \<Rightarrow> (TranscriptSegment \<times> InsightType \<times> Rule) list" where
  "scan_order target =
     concat (map (\<lambda>seg.
       concat (map (\<lambda>(cat, rules). map (\<lambda>rule. (seg, cat, rule)) rules) RULE_MAP)) target)"

definition finding_key :: "Insight \<Rightarrow> string \<times> string \<times> real option" where
  "finding_key i = (type_value (ins_type i), matched_phrase i, ins_timestamp i)"

definition finding_of :: "TranscriptSegment \<Rightarrow> InsightType \<Rightarrow> Rule \<Rightarrow> Insight" where
  "finding_of seg cat rule =
     \<lparr>ins_type = cat,
      ins_confidence = confidence rule,
      matched_text = seg_text seg,
      matched_phrase = phrase rule,
      ins_speaker = speaker seg,
      ins_timestamp = Some (timestamp seg),
      ins_suggestion = suggestion rule\<rparr>"

fun emit_spec ::
    "(TranscriptSegment \<times> InsightType \<times> Rule) list \<Rightarrow> Insight list \<Rightarrow> Insight list" where
  "emit_spec [] emitted = emitted"
| "emit_spec ((seg, cat, rule) # rest) emitted =
     (if str_contains (phrase rule) (lower (seg_text seg)) \<and>
         (type_value cat, phrase rule, Some (timestamp seg)) \<notin> finding_key ` set emitted
      then emit_spec rest (emitted @ [finding_of seg cat rule])
      else emit_spec rest emitted)"

section \<open>Ingestion: deduplication, idempotence, counter\<close>

lemma add_segments_again:
  "add_segments (snd (add_segments sd segs)) segs = (0, snd (add_segments sd segs))"
proof -
  let ?K = "(\<lambda>s. (timestamp s, seg_text s))"
  let ?u = "filter (\<lambda>s. ?K s \<notin> ?K ` set (segments sd)) segs"
  have "filter (\<lambda>s. ?K s \<notin> ?K ` set (segments sd @ ?u)) segs = []"
    by (auto simp: filter_empty_conv)
  then show ?thesis
    by (simp add: add_segments_def Let_def)
qed

lemma store_add_segments_eq:
  "store_add_segments st sid segs =
     (fst (add_segments (case map_of st sid of None \<Rightarrow> new_session sid | Some sd \<Rightarrow> sd) segs),
      AList.update sid
        (snd (add_segments (case map_of st sid of None \<Rightarrow> new_session sid | Some sd \<Rightarrow> sd) segs)) st)"
  by (simp add: store_add_segments_def Let_def split_beta)

text \<open>
  Claim C2. Ingesting the same fragment list a second time into the same session
  returns the count 0 and leaves the store, and with it the session's stored fragments
  and its counter, exactly as the first call left them. This holds for every store,
  session id and fragment list, whether or not the session existed before.
\<close>

theorem ingest_twice_idempotent:
  "fst (store_add_segments (snd (store_add_segments st sid segs)) sid segs) = 0 \<and>
   snd (store_add_segments (snd (store_add_segments st sid segs)) sid segs) =
     snd (store_add_segments st sid segs)"
  by (simp add: store_add_segments_eq update_conv' add_segments_again)

lemma add_segments_count:
  "segment_count sd = int (length (segments sd)) \<Longrightarrow>
   segment_count (snd (add_segments sd segs)) = int (length (segments (snd (add_segments sd segs))))"
  by (simp add: add_segments_def Let_def)

lemma add_segments_mono:
  "prefix (segments sd) (segments (snd (add_segments sd segs))) \<and>
   segment_count sd \<le> segment_count (snd (add_segments sd segs))"
  by (simp add: add_segments_def Let_def)

lemma count_ok_lookup:
  "count_ok st \<Longrightarrow> map_of st sid = Some sd \<Longrightarrow> segment_count sd = int (length (segments sd))"
  by (auto simp: count_ok_def list_all_iff dest: map_of_SomeD)

lemma count_ok_update:
  "count_ok st \<Longrightarrow> segment_count sd = int (length (segments sd)) \<Longrightarrow> count_ok (AList.update sid sd st)"
  by (induction st) (auto simp: count_ok_def)

lemma count_ok_exec: "count_ok st \<Longrightarrow> count_ok (exec op st)"
proof (cases op)
  case (AddSegments sid segs)
  assume ok: "count_ok st"
  let ?sd = "case map_of st sid of None \<Rightarrow> new_session sid | Some sd \<Rightarrow> sd"
  have "segment_count ?sd = int (length (segments ?sd))"
    using ok by (auto simp: new_session_def split: option.splits dest: count_ok_lookup)
  then show ?thesis
    using ok AddSegments by (simp add: store_add_segments_eq count_ok_update add_segments_count)
next
  case (RunAnalysis sid)
  assume ok: "count_ok st"
  then show ?thesis
    using RunAnalysis
    by (auto simp: run_analysis_def Let_def split: option.splits
             intro!: count_ok_update dest: count_ok_lookup)
qed simp_all

lemma reachable_count_ok: "reachable st \<Longrightarrow> count_ok st"
proof (induction rule: reachable.induct)
  case init
  show ?case by (simp add: count_ok_def)
next
  case (step st op)
  from step.IH show ?case by (rule count_ok_exec)
qed

lemma exec_mono:
  assumes "map_of st sid = Some sd"
  shows "\<exists>sd'. map_of (exec op st) sid = Some sd' \<and> prefix (segments sd) (segments sd') \<and>
           segment_count sd \<le> segment_count sd'"
proof (cases op)
  case (AddSegments sid' segs)
  show ?thesis
  proof (cases "sid' = sid")
    case True
    then show ?thesis using assms AddSegments
      by (simp add: store_add_segments_eq update_conv' add_segments_mono)
  next
    case False
    then show ?thesis using assms AddSegments
      by (simp add: store_add_segments_eq update_conv')
  qed
next
  case (RunAnalysis sid')
  then show ?thesis using assms
    by (cases "sid' = sid") (auto simp: run_analysis_def Let_def update_conv' split: option.splits)
qed (use assms in simp_all)

text \<open>
  Claim C6. In every store reachable from the empty store by the store operations, the
  \<open>segment_count\<close> of every aggregate is the length of its fragment list; and every
  operation keeps the aggregate, with the fragments it held as a prefix of the fragments
  it holds afterwards and a counter that did not decrease.
\<close>

theorem segment_count_invariant:
  assumes "reachable st" and "map_of st sid = Some sd"
  shows "segment_count sd = int (length (segments sd)) \<and>
         (\<forall>op. \<exists>sd'. map_of (exec op st) sid = Some sd' \<and>
                  prefix (segments sd) (segments sd') \<and>
                  segment_count sd \<le> segment_count sd')"
proof (intro conjI allI)
  show "segment_count sd = int (length (segments sd))"
    using assms by (blast intro: count_ok_lookup reachable_count_ok)
next
  fix op
  show "\<exists>sd'. map_of (exec op st) sid = Some sd' \<and> prefix (segments sd) (segments sd') \<and>
          segment_count sd \<le> segment_count sd'"
    using assms(2) by (rule exec_mono)
qed


text \<open>
  The invariant at a store built by one ingestion, and the step at a second ingestion.
\<close>

theorem segment_count_invariant_witness:
  "reachable (exec (AddSegments ''s1''
       [\<lparr>seg_text = ''hello'', speaker = None, is_user = False, timestamp = 1\<rparr>]) []) \<and>
   map_of (exec (AddSegments ''s1''
       [\<lparr>seg_text = ''hello'', speaker = None, is_user = False, timestamp = 1\<rparr>]) []) ''s1'' =
     Some \<lparr>session_id = ''s1'',
           segments = [\<lparr>seg_text = ''hello'', speaker = None, is_user = False, timestamp = 1\<rparr>],
           segment_count = 1, latest_insights = None\<rparr> \<and>
   segment_count \<lparr>session_id = ''s1'',
           segments = [\<lparr>seg_text = ''hello'', speaker = None, is_user = False, timestamp = 1\<rparr>],
           segment_count = 1, latest_insights = None\<rparr> = 1 \<and>
   (\<exists>sd'. map_of (exec (AddSegments ''s1''
              [\<lparr>seg_text = ''more'', speaker = None, is_user = False, timestamp = 2\<rparr>])
            (exec (AddSegments ''s1''
              [\<lparr>seg_text = ''hello'', speaker = None, is_user = False, timestamp = 1\<rparr>]) []))
          ''s1'' = Some sd' \<and>
      prefix [\<lparr>seg_text = ''hello'', speaker = None, is_user = False, timestamp = 1\<rparr>]
        (segments sd') \<and> 1 \<le> segment_count sd')"
proof -
  let ?f = "\<lparr>seg_text = ''hello'', speaker = None, is_user = False, timestamp = 1\<rparr>"
  let ?st = "exec (AddSegments ''s1'' [?f]) []"
  let ?sd = "\<lparr>session_id = ''s1'', segments = [?f], segment_count = 1, latest_insights = None\<rparr>"
  have r: "reachable ?st"
    by (rule reachable.step) (rule reachable.init)
  have m: "map_of ?st ''s1'' = Some ?sd"
    by (simp add: store_add_segments_def add_segments_def new_session_def)
  from segment_count_invariant [OF r m]
  have c: "segment_count ?sd = int (length (segments ?sd))"
    and e: "\<forall>op. \<exists>sd'. map_of (exec op ?st) ''s1'' = Some sd' \<and>
              prefix (segments ?sd) (segments sd') \<and> segment_count ?sd \<le> segment_count sd'"
    by blast+
  from e have "\<exists>sd'. map_of (exec (AddSegments ''s1''
              [\<lparr>seg_text = ''more'', speaker = None, is_user = False, timestamp = 2\<rparr>]) ?st)
            ''s1'' = Some sd' \<and>
        prefix (segments ?sd) (segments sd') \<and> segment_count ?sd \<le> segment_count sd'"
    by (rule spec)
  with r m c show ?thesis
    by simp
qed

text \<open>
  Claim C1. The deduplication filters the incoming list against the keys held before
  the call only, so a fragment that occurs twice in one ingested list is stored twice:
  here two fragments with timestamp 1 and text \<open>hello\<close> are ingested into a new session
  in one call, the call reports 2 new fragments, and both are stored.
\<close>

theorem add_segments_same_batch_duplicate:
  "store_add_segments [] ''s1''
     [\<lparr>seg_text = ''hello'', speaker = None, is_user = False, timestamp = 1\<rparr>,
      \<lparr>seg_text = ''hello'', speaker = None, is_user = False, timestamp = 1\<rparr>] =
   (2, [(''s1'',
         \<lparr>session_id = ''s1'',
          segments =
            [\<lparr>seg_text = ''hello'', speaker = None, is_user = False, timestamp = 1\<rparr>,
             \<lparr>seg_text = ''hello'', speaker = None, is_user = False, timestamp = 1\<rparr>],
          segment_count = 2,
          latest_insights = None\<rparr>)])"
  by (simp add: store_add_segments_def add_segments_def new_session_def)

section \<open>Counting\<close>

lemma map_of_dict_add:
  "map_of (dict_add k n d) k' =
     (if k' = k then Some ((case map_of d k of None \<Rightarrow> 0 | Some v \<Rightarrow> v) + n) else map_of d k')"
  by (induction d) auto

lemma keys_dict_add:
  "map fst (dict_add k n d) = (if k \<in> set (map fst d) then map fst d else map fst d @ [k])"
  by (induction d) (force split: if_splits)+

lemma distinct_dict_add: "distinct (map fst d) \<Longrightarrow> distinct (map fst (dict_add k n d))"
  by (simp add: keys_dict_add)

lemma sum_dict_add: "sum_list (map snd (dict_add k n d)) = sum_list (map snd d) + n"
  by (induction d) auto

lemma map_of_fold_dict_add:
  "map_of (fold (\<lambda>k. dict_add k 1) xs d) k =
     (if k \<in> set xs \<or> map_of d k \<noteq> None
      then Some ((case map_of d k of None \<Rightarrow> 0 | Some v \<Rightarrow> v) + int (length (filter (\<lambda>x. x = k) xs)))
      else None)"
proof (induction xs arbitrary: d)
  case Nil
  show ?case by (auto split: option.splits)
next
  case (Cons x xs)
  show ?case
    by (simp add: Cons.IH map_of_dict_add split: option.splits)
qed

lemma distinct_fold_dict_add:
  "distinct (map fst d) \<Longrightarrow> distinct (map fst (fold (\<lambda>k. dict_add k 1) xs d))"
  by (induction xs arbitrary: d) (simp_all add: distinct_dict_add)

lemma sum_fold_dict_add:
  "sum_list (map snd (fold (\<lambda>k. dict_add k 1) xs d)) = sum_list (map snd d) + int (length xs)"
  by (induction xs arbitrary: d) (simp_all add: sum_dict_add)

lemma map_of_Counter:
  "map_of (Counter xs) k =
     (if length (filter (\<lambda>x. x = k) xs) = 0 then None
      else Some (int (length (filter (\<lambda>x. x = k) xs))))"
  by (auto simp: Counter_def map_of_fold_dict_add filter_empty_conv)

lemma distinct_Counter: "distinct (map fst (Counter xs))"
  by (simp add: Counter_def distinct_fold_dict_add)

lemma sum_Counter: "sum_list (map snd (Counter xs)) = int (length xs)"
  by (simp add: Counter_def sum_fold_dict_add)

lemma Counter_map_filter:
  "length (filter (\<lambda>x. x = k) (map f xs)) = length (filter (\<lambda>i. f i = k) xs)"
  by (induction xs) auto

text \<open>
  Claim C10. The Finding-Set returned by \<open>analyze_segments\<close> is consistent for
  every engine, fragment list and session id: the total is the length of the Finding
  list; the summary has an entry for a category exactly when the list holds a Finding of
  that category, and the entry is their number; the summary has one entry per key; the
  values of the summary sum to the total; and the empty input gives the empty list, the
  total 0 and the empty summary.
\<close>

theorem analyze_segments_consistent:
  "total_insights (analyze_segments e segs sid) =
     int (length (insights (analyze_segments e segs sid))) \<and>
   (\<forall>k. map_of (summary (analyze_segments e segs sid)) k =
      (if length (filter (\<lambda>i. type_value (ins_type i) = k)
                    (insights (analyze_segments e segs sid))) = 0
       then None
       else Some (int (length (filter (\<lambda>i. type_value (ins_type i) = k)
                            (insights (analyze_segments e segs sid))))))) \<and>
   distinct (map fst (summary (analyze_segments e segs sid))) \<and>
   sum_list (map snd (summary (analyze_segments e segs sid))) =
     total_insights (analyze_segments e segs sid) \<and>
   analyze_segments e [] sid =
     \<lparr>si_session_id = sid, insights = [], total_insights = 0, summary = []\<rparr>"
proof -
  have empty: "analyze_segments e [] sid =
      \<lparr>si_session_id = sid, insights = [], total_insights = 0, summary = []\<rparr>"
    by (simp add: analyze_segments_def target_segments_def slice_from_def scan_segments_def
          Counter_def)
  show ?thesis
    unfolding empty
    by (simp add: analyze_segments_def Let_def map_of_Counter distinct_Counter sum_Counter
          Counter_map_filter comp_def)
qed

section \<open>Sorting\<close>

text \<open>
  Claim C4. The Finding list returned by \<open>analyze_segments\<close> is sorted by the key
  (timestamp, with a missing timestamp counted as 0; negated confidence): of two
  Findings the earlier one in the list has the smaller or equal effective timestamp,
  and at equal effective timestamps the greater or equal confidence.
\<close>

theorem analyze_segments_sorted:
  "sorted (map insight_sort_key (insights (analyze_segments e segs sid))) \<and>
   (\<forall>i j. i < j \<and> j < length (insights (analyze_segments e segs sid)) \<longrightarrow>
      effective_timestamp (insights (analyze_segments e segs sid) ! i)
        \<le> effective_timestamp (insights (analyze_segments e segs sid) ! j) \<and>
      (effective_timestamp (insights (analyze_segments e segs sid) ! i)
         = effective_timestamp (insights (analyze_segments e segs sid) ! j) \<longrightarrow>
       ins_confidence (insights (analyze_segments e segs sid) ! j)
         \<le> ins_confidence (insights (analyze_segments e segs sid) ! i)))"
proof -
  let ?xs = "insights (analyze_segments e segs sid)"
  have s: "sorted (map insight_sort_key ?xs)"
    by (simp add: analyze_segments_def Let_def)
  have "effective_timestamp (?xs ! i) \<le> effective_timestamp (?xs ! j) \<and>
        (effective_timestamp (?xs ! i) = effective_timestamp (?xs ! j) \<longrightarrow>
         ins_confidence (?xs ! j) \<le> ins_confidence (?xs ! i))"
    if "i < j" "j < length ?xs" for i j
  proof -
    from that s have "insight_sort_key (?xs ! i) \<le> insight_sort_key (?xs ! j)"
      using sorted_nth_mono [of "map insight_sort_key ?xs" i j] by simp
    then show ?thesis
      by (auto simp: insight_sort_key_def less_eq_prod_def)
  qed
  with s show ?thesis by blast
qed


text \<open>
  Two fragments given out of chronological order, the later one matching a rule of
  confidence 0.7 before a rule of confidence 0.95 in scan order.
\<close>

theorem analyze_segments_sorted_witness:
  "map (\<lambda>i. (effective_timestamp i, ins_confidence i, matched_phrase i))
     (insights (analyze_segments insight_engine
       [\<lparr>seg_text = ''Ready to buy, but we cannot spend that much'', speaker = None,
          is_user = False, timestamp = 2\<rparr>,
        \<lparr>seg_text = ''Looks good'', speaker = None, is_user = False, timestamp = 1\<rparr>]
       ''s1'')) =
     [(1, 0.6, ''looks good''), (2, 0.95, ''ready to buy''), (2, 0.7, ''spend that much'')] \<and>
   sorted (map insight_sort_key
     (insights (analyze_segments insight_engine
       [\<lparr>seg_text = ''Ready to buy, but we cannot spend that much'', speaker = None,
          is_user = False, timestamp = 2\<rparr>,
        \<lparr>seg_text = ''Looks good'', speaker = None, is_user = False, timestamp = 1\<rparr>]
       ''s1'')))"
proof -
  let ?segs =
    "[\<lparr>seg_text = ''Ready to buy, but we cannot spend that much'', speaker = None,
        is_user = False, timestamp = 2\<rparr>,
      \<lparr>seg_text = ''Looks good'', speaker = None, is_user = False, timestamp = 1\<rparr>]"
  have ev: "map (\<lambda>i. (effective_timestamp i, ins_confidence i, matched_phrase i))
      (insights (analyze_segments insight_engine ?segs ''s1'')) =
      [(1, 0.6, ''looks good''), (2, 0.95, ''ready to buy''), (2, 0.7, ''spend that much'')]"
    by code_simp
  from analyze_segments_sorted [of insight_engine ?segs "''s1''"] ev show ?thesis
    by simp
qed

section \<open>Window\<close>

text \<open>
  Claim C5. When the window size is positive and smaller than the number of fragments,
  the fragments scanned are exactly the last \<open>window_size\<close> fragments, in input
  order; otherwise all fragments are scanned. In both cases the result of the analysis
  is the result of an unwindowed analysis of the scanned fragments.
\<close>

theorem window_scans_last_fragments:
  "(0 < window_size e \<and> window_size e < int (length segs) \<longrightarrow>
      target_segments e segs = drop (length segs - nat (window_size e)) segs \<and>
      int (length (target_segments e segs)) = window_size e \<and>
      suffix (target_segments e segs) segs) \<and>
   (\<not> (0 < window_size e \<and> window_size e < int (length segs)) \<longrightarrow>
      target_segments e segs = segs) \<and>
   analyze_segments e segs sid =
     analyze_segments \<lparr>window_size = 0\<rparr> (target_segments e segs) sid"
proof -
  have a: "target_segments e segs = drop (length segs - nat (window_size e)) segs"
    if "0 < window_size e" "window_size e < int (length segs)"
  proof -
    from that have "nat (int (length segs) - window_size e) = length segs - nat (window_size e)"
      by linarith
    with that show ?thesis
      by (simp add: target_segments_def slice_from_def)
  qed
  have b: "target_segments e segs = segs"
    if "\<not> (0 < window_size e \<and> window_size e < int (length segs))"
    using that by (auto simp: target_segments_def)
  have c: "analyze_segments e segs sid =
      analyze_segments \<lparr>window_size = 0\<rparr> (target_segments e segs) sid"
    by (simp add: analyze_segments_def target_segments_def)
  from a b c show ?thesis
    by (auto simp: suffix_drop)
qed

text \<open>
  Window size 1 on three chronologically ordered fragments: only the last is scanned.
\<close>

theorem window_scans_last_fragments_witness:
  "0 < window_size \<lparr>window_size = 1\<rparr> \<and>
   window_size \<lparr>window_size = 1\<rparr> <
     int (length
       [\<lparr>seg_text = ''This is too expensive'', speaker = None, is_user = False, timestamp = 1\<rparr>,
        \<lparr>seg_text = ''A competitor called'', speaker = None, is_user = False, timestamp = 2\<rparr>,
        \<lparr>seg_text = ''Send me a proposal'', speaker = None, is_user = False, timestamp = 3\<rparr>]) \<and>
   target_segments \<lparr>window_size = 1\<rparr>
       [\<lparr>seg_text = ''This is too expensive'', speaker = None, is_user = False, timestamp = 1\<rparr>,
        \<lparr>seg_text = ''A competitor called'', speaker = None, is_user = False, timestamp = 2\<rparr>,
        \<lparr>seg_text = ''Send me a proposal'', speaker = None, is_user = False, timestamp = 3\<rparr>] =
     [\<lparr>seg_text = ''Send me a proposal'', speaker = None, is_user = False, timestamp = 3\<rparr>] \<and>
   map matched_phrase (insights (analyze_segments \<lparr>window_size = 1\<rparr>
       [\<lparr>seg_text = ''This is too expensive'', speaker = None, is_user = False, timestamp = 1\<rparr>,
        \<lparr>seg_text = ''A competitor called'', speaker = None, is_user = False, timestamp = 2\<rparr>,
        \<lparr>seg_text = ''Send me a proposal'', speaker = None, is_user = False, timestamp = 3\<rparr>]
       ''s1'')) = [''send me a proposal'']"
proof -
  let ?e = "\<lparr>window_size = 1\<rparr>"
  let ?f3 = "\<lparr>seg_text = ''Send me a proposal'', speaker = None, is_user = False, timestamp = 3\<rparr>"
  let ?segs =
    "[\<lparr>seg_text = ''This is too expensive'', speaker = None, is_user = False, timestamp = 1\<rparr>,
      \<lparr>seg_text = ''A competitor called'', speaker = None, is_user = False, timestamp = 2\<rparr>,
      ?f3]"
  have h: "0 < window_size ?e \<and> window_size ?e < int (length ?segs)"
    by simp
  from window_scans_last_fragments [of ?e ?segs "''s1''"] h
  have t: "target_segments ?e ?segs = drop (length ?segs - nat (window_size ?e)) ?segs"
    and a: "analyze_segments ?e ?segs ''s1'' =
              analyze_segments \<lparr>window_size = 0\<rparr> (target_segments ?e ?segs) ''s1''"
    by blast+
  from t have t': "target_segments ?e ?segs = [?f3]"
    by simp
  have ev: "map matched_phrase (insights (analyze_segments \<lparr>window_size = 0\<rparr> [?f3] ''s1'')) =
      [''send me a proposal'']"
    by code_simp
  from h t' a ev show ?thesis
    by simp
qed

section \<open>Running and caching the analysis\<close>

lemma sorted_ordered_segments: "sorted (map timestamp (ordered_segments sd))"
  by (simp add: ordered_segments_def)

lemma stable_ordered_segments:
  "filter (\<lambda>s. timestamp s = t) (ordered_segments sd) = filter (\<lambda>s. timestamp s = t) (segments sd)"
  by (simp add: ordered_segments_def sort_key_stable)

text \<open>
  Claim C8. \<open>run_analysis\<close> on an unknown session id returns \<open>None\<close> and
  leaves the store unchanged. On a known session it runs the engine on the session's
  fragments sorted by timestamp (a stable sort of the stored fragments), returns the
  result, and stores it as the session's cached findings, so that \<open>get_insights\<close>
  on the store afterwards returns the same result; no other session and no key of the
  store changes.
\<close>

theorem run_analysis_caches_result:
  "(get_session st sid = None \<longrightarrow> run_analysis st sid = (None, st)) \<and>
   (\<forall>session. get_session st sid = Some session \<longrightarrow>
      sorted (map timestamp (ordered_segments session)) \<and>
      (\<forall>t. filter (\<lambda>s. timestamp s = t) (ordered_segments session) =
             filter (\<lambda>s. timestamp s = t) (segments session)) \<and>
      fst (run_analysis st sid) =
        Some (analyze_segments insight_engine (ordered_segments session) sid) \<and>
      get_session (snd (run_analysis st sid)) sid =
        Some (session\<lparr>latest_insights :=
                Some (analyze_segments insight_engine (ordered_segments session) sid)\<rparr>) \<and>
      store_get_insights (snd (run_analysis st sid)) sid =
        Some (analyze_segments insight_engine (ordered_segments session) sid) \<and>
      (\<forall>other. other \<noteq> sid \<longrightarrow>
         get_session (snd (run_analysis st sid)) other = get_session st other) \<and>
      list_sessions (snd (run_analysis st sid)) = list_sessions st)"
proof (intro conjI allI impI)
  assume "get_session st sid = None"
  then show "run_analysis st sid = (None, st)"
    by (simp add: run_analysis_def get_session_def)
next
  fix session
  assume s: "get_session st sid = Some session"
  then have m: "map_of st sid = Some session"
    by (simp add: get_session_def)
  let ?r = "analyze_segments insight_engine (ordered_segments session) sid"
  have r: "run_analysis st sid =
      (Some ?r, AList.update sid (session\<lparr>latest_insights := Some ?r\<rparr>) st)"
    using m by (simp add: run_analysis_def Let_def)
  show "sorted (map timestamp (ordered_segments session))"
    by (rule sorted_ordered_segments)
  show "filter (\<lambda>s. timestamp s = t) (ordered_segments session) =
        filter (\<lambda>s. timestamp s = t) (segments session)" for t
    by (rule stable_ordered_segments)
  show "fst (run_analysis st sid) = Some ?r"
    by (simp add: r)
  show "get_session (snd (run_analysis st sid)) sid = Some (session\<lparr>latest_insights := Some ?r\<rparr>)"
    by (simp add: r get_session_def update_conv')
  show "store_get_insights (snd (run_analysis st sid)) sid = Some ?r"
    by (simp add: r store_get_insights_def update_conv')
  show "get_session (snd (run_analysis st sid)) other = get_session st other"
    if "other \<noteq> sid" for other
    using that by (simp add: r get_session_def update_conv')
  have "sid \<in> fst ` set st"
    using m by (metis map_of_eq_None_iff option.distinct(1))
  then show "list_sessions (snd (run_analysis st sid)) = list_sessions st"
    by (simp add: r list_sessions_def update_keys)
qed

text \<open>
  An unknown id on the empty store, and the scenario of two fragments ingested out of
  order: a pricing objection at time 1 and a buying signal at time 2.
\<close>

theorem run_analysis_caches_result_witness:
  "run_analysis [] ''s2'' = (None, []) \<and>
   get_session
     [(''s1'', \<lparr>session_id = ''s1'',
        segments =
          [\<lparr>seg_text = ''send me a proposal'', speaker = None, is_user = False, timestamp = 2\<rparr>,
           \<lparr>seg_text = ''too expensive'', speaker = None, is_user = False, timestamp = 1\<rparr>],
        segment_count = 2, latest_insights = None\<rparr>)] ''s1'' =
     Some \<lparr>session_id = ''s1'',
        segments =
          [\<lparr>seg_text = ''send me a proposal'', speaker = None, is_user = False, timestamp = 2\<rparr>,
           \<lparr>seg_text = ''too expensive'', speaker = None, is_user = False, timestamp = 1\<rparr>],
        segment_count = 2, latest_insights = None\<rparr> \<and>
   (\<exists>r. fst (run_analysis
       [(''s1'', \<lparr>session_id = ''s1'',
          segments =
            [\<lparr>seg_text = ''send me a proposal'', speaker = None, is_user = False, timestamp = 2\<rparr>,
             \<lparr>seg_text = ''too expensive'', speaker = None, is_user = False, timestamp = 1\<rparr>],
          segment_count = 2, latest_insights = None\<rparr>)] ''s1'') = Some r \<and>
     store_get_insights (snd (run_analysis
       [(''s1'', \<lparr>session_id = ''s1'',
          segments =
            [\<lparr>seg_text = ''send me a proposal'', speaker = None, is_user = False, timestamp = 2\<rparr>,
             \<lparr>seg_text = ''too expensive'', speaker = None, is_user = False, timestamp = 1\<rparr>],
          segment_count = 2, latest_insights = None\<rparr>)] ''s1'')) ''s1'' = Some r \<and>
     map (\<lambda>i. (ins_type i, ins_confidence i, ins_timestamp i)) (insights r) =
       [(PRICING_OBJECTION, 0.9, Some 1), (BUYING_SIGNAL, 0.95, Some 2)] \<and>
     total_insights r = 2 \<and>
     summary r = [(''pricing_objection'', 1), (''buying_signal'', 1)])"
proof -
  let ?sd = "\<lparr>session_id = ''s1'',
        segments =
          [\<lparr>seg_text = ''send me a proposal'', speaker = None, is_user = False, timestamp = 2\<rparr>,
           \<lparr>seg_text = ''too expensive'', speaker = None, is_user = False, timestamp = 1\<rparr>],
        segment_count = 2, latest_insights = None\<rparr>"
  let ?st = "[(''s1'', ?sd)]"
  let ?r = "analyze_segments insight_engine (ordered_segments ?sd) ''s1''"
  have a: "get_session [] ''s2'' = None"
    by (simp add: get_session_def)
  have b: "get_session ?st ''s1'' = Some ?sd"
    by (simp add: get_session_def)
  from run_analysis_caches_result [of "[]" "''s2''"] a
  have n: "run_analysis [] ''s2'' = (None, [])"
    by blast
  from run_analysis_caches_result [of ?st "''s1''"] b
  have f: "fst (run_analysis ?st ''s1'') = Some ?r"
    and g: "store_get_insights (snd (run_analysis ?st ''s1'')) ''s1'' = Some ?r"
    by blast+
  have e1: "map (\<lambda>i. (ins_type i, ins_confidence i, ins_timestamp i)) (insights ?r) =
       [(PRICING_OBJECTION, 0.9, Some 1), (BUYING_SIGNAL, 0.95, Some 2)]"
    by code_simp
  have e2: "total_insights ?r = 2"
    by code_simp
  have e3: "summary ?r = [(''pricing_objection'', 1), (''buying_signal'', 1)]"
    by code_simp
  show ?thesis
  proof (intro conjI exI)
    show "run_analysis [] ''s2'' = (None, [])" by (rule n)
    show "get_session ?st ''s1'' = Some ?sd" by (rule b)
    show "fst (run_analysis ?st ''s1'') = Some ?r" by (rule f)
    show "store_get_insights (snd (run_analysis ?st ''s1'')) ''s1'' = Some ?r" by (rule g)
    show "map (\<lambda>i. (ins_type i, ins_confidence i, ins_timestamp i)) (insights ?r) =
       [(PRICING_OBJECTION, 0.9, Some 1), (BUYING_SIGNAL, 0.95, Some 2)]" by (rule e1)
    show "total_insights ?r = 2" by (rule e2)
    show "summary ?r = [(''pricing_objection'', 1), (''buying_signal'', 1)]" by (rule e3)
  qed
qed

section \<open>The scan: matching and deduplication\<close>

lemma str_contains_iff: "str_contains p t \<longleftrightarrow> (\<exists>pre suf. t = pre @ p @ suf)"
proof (induction t)
  case Nil
  show ?case by auto
next
  case (Cons c cs)
  have "(\<exists>pre suf. c # cs = pre @ p @ suf) \<longleftrightarrow>
        prefix p (c # cs) \<or> (\<exists>pre suf. cs = pre @ p @ suf)"
  proof
    assume "\<exists>pre suf. c # cs = pre @ p @ suf"
    then obtain pre suf where e: "c # cs = pre @ p @ suf" by blast
    show "prefix p (c # cs) \<or> (\<exists>pre suf. cs = pre @ p @ suf)"
    proof (cases pre)
      case Nil
      with e show ?thesis by (auto simp: prefix_def)
    next
      case (Cons a pre')
      with e have "cs = pre' @ p @ suf" by simp
      then show ?thesis by blast
    qed
  next
    assume "prefix p (c # cs) \<or> (\<exists>pre suf. cs = pre @ p @ suf)"
    then show "\<exists>pre suf. c # cs = pre @ p @ suf"
    proof
      assume "prefix p (c # cs)"
      then obtain suf where "c # cs = p @ suf" by (auto simp: prefix_def)
      then have "c # cs = [] @ p @ suf" by simp
      then show ?thesis by blast
    next
      assume "\<exists>pre suf. cs = pre @ p @ suf"
      then obtain pre suf where "cs = pre @ p @ suf" by blast
      then have "c # cs = (c # pre) @ p @ suf" by simp
      then show ?thesis by blast
    qed
  qed
  with Cons.IH show ?case by simp
qed

lemma type_value_inj: "type_value a = type_value b \<longleftrightarrow> a = b"
  by (cases a; cases b) simp_all

lemma fold_concat: "fold f (concat xss) = fold (fold f) xss"
  by (induction xss) simp_all

lemma fold_rules_flat:
  "fold (\<lambda>(seg, cat, rule). rule_step seg (lower (seg_text seg)) cat rule)
     (map (\<lambda>rule. (seg, cat, rule)) rules) =
   type_step seg (lower (seg_text seg)) (cat, rules)"
  by (rule ext) (simp add: type_step_def fold_map comp_def)

lemma fold_types_flat:
  "fold (\<lambda>(seg, cat, rule). rule_step seg (lower (seg_text seg)) cat rule)
     (concat (map (\<lambda>(cat, rules). map (\<lambda>rule. (seg, cat, rule)) rules) m)) =
   fold (type_step seg (lower (seg_text seg))) m"
proof (induction m)
  case Nil
  show ?case by simp
next
  case (Cons item m)
  obtain cat rules where i: "item = (cat, rules)" by (cases item) auto
  show ?case
    by (simp add: i Cons.IH fold_rules_flat)
qed

lemma segment_step_flat:
  "segment_step seg =
   fold (\<lambda>(seg, cat, rule). rule_step seg (lower (seg_text seg)) cat rule)
     (concat (map (\<lambda>(cat, rules). map (\<lambda>rule. (seg, cat, rule)) rules) RULE_MAP))"
  by (rule ext) (simp add: segment_step_def fold_types_flat)

lemma scan_order_Cons:
  "scan_order (seg # target) =
   concat (map (\<lambda>(cat, rules). map (\<lambda>rule. (seg, cat, rule)) rules) RULE_MAP) @
   scan_order target"
  by (simp add: scan_order_def)

lemma fold_segments_flat:
  "fold (\<lambda>(seg, cat, rule). rule_step seg (lower (seg_text seg)) cat rule) (scan_order target) =
   fold segment_step target"
proof (induction target)
  case Nil
  show ?case by (simp add: scan_order_def)
next
  case (Cons seg target)
  show ?case
    by (simp add: scan_order_Cons Cons.IH segment_step_flat [symmetric] comp_def)
qed

lemma scan_segments_flat:
  "scan_segments target =
     fold (\<lambda>(seg, cat, rule). rule_step seg (lower (seg_text seg)) cat rule)
       (scan_order target) ([], {})"
  by (simp add: scan_segments_def fold_segments_flat)

lemma scan_refines_spec:
  assumes "(\<lambda>(c, p, t). (c, p, Some t)) ` seen = finding_key ` set found"
  shows "fst (fold (\<lambda>(seg, cat, rule). rule_step seg (lower (seg_text seg)) cat rule)
                ts (found, seen)) = emit_spec ts found"
  using assms
proof (induction ts arbitrary: found seen)
  case Nil
  show ?case by simp
next
  case (Cons x ts)
  obtain seg cat rule where x: "x = (seg, cat, rule)" by (cases x) auto
  let ?k = "(type_value cat, phrase rule, timestamp seg)"
  have mem: "?k \<in> seen \<longleftrightarrow>
      (type_value cat, phrase rule, Some (timestamp seg)) \<in> finding_key ` set found"
  proof -
    have "?k \<in> seen \<longleftrightarrow>
        (type_value cat, phrase rule, Some (timestamp seg)) \<in> (\<lambda>(c, p, t). (c, p, Some t)) ` seen"
      by force
    with Cons.prems show ?thesis by simp
  qed
  show ?case
  proof (cases "str_contains (phrase rule) (lower (seg_text seg)) \<and> ?k \<notin> seen")
    case True
    have inv: "(\<lambda>(c, p, t). (c, p, Some t)) ` insert ?k seen =
        finding_key ` set (found @ [finding_of seg cat rule])"
      using Cons.prems by (simp add: finding_key_def finding_of_def)
    have "rule_step seg (lower (seg_text seg)) cat rule (found, seen) =
        (found @ [finding_of seg cat rule], insert ?k seen)"
      using True by (simp add: rule_step_def finding_of_def)
    with True mem Cons.IH [OF inv] show ?thesis
      by (simp add: x)
  next
    case False
    then have "rule_step seg (lower (seg_text seg)) cat rule (found, seen) = (found, seen)"
      by (auto simp: rule_step_def)
    with False mem Cons.IH [OF Cons.prems] show ?thesis
      by (auto simp: x)
  qed
qed

lemma scan_segments_spec: "fst (scan_segments target) = emit_spec (scan_order target) []"
  by (simp add: scan_segments_flat scan_refines_spec)

lemma emit_spec_keeps: "set em \<subseteq> set (emit_spec ts em)"
  by (induction ts em rule: emit_spec.induct) auto

lemma emit_spec_sound:
  "f \<in> set (emit_spec ts em) \<Longrightarrow>
   f \<in> set em \<or>
   (\<exists>seg cat rule. (seg, cat, rule) \<in> set ts \<and>
      str_contains (phrase rule) (lower (seg_text seg)) \<and> f = finding_of seg cat rule)"
proof (induction ts arbitrary: em)
  case Nil
  then show ?case by simp
next
  case (Cons x ts)
  obtain seg cat rule where x: "x = (seg, cat, rule)" by (cases x) auto
  let ?c = "str_contains (phrase rule) (lower (seg_text seg)) \<and>
      (type_value cat, phrase rule, Some (timestamp seg)) \<notin> finding_key ` set em"
  show ?case
  proof (cases ?c)
    case True
    with Cons.prems have "f \<in> set (emit_spec ts (em @ [finding_of seg cat rule]))"
      by (simp add: x)
    from Cons.IH [OF this] have
      "f \<in> set em \<or> f = finding_of seg cat rule \<or>
       (\<exists>seg cat rule. (seg, cat, rule) \<in> set ts \<and>
          str_contains (phrase rule) (lower (seg_text seg)) \<and> f = finding_of seg cat rule)"
      by auto
    with True show ?thesis
      unfolding x by (metis list.set_intros(1) list.set_intros(2))
  next
    case False
    with Cons.prems have "f \<in> set (emit_spec ts em)"
      by (auto simp: x)
    from Cons.IH [OF this] show ?thesis
      by (metis list.set_intros(2))
  qed
qed

lemma emit_spec_complete:
  "(seg, cat, rule) \<in> set ts \<Longrightarrow> str_contains (phrase rule) (lower (seg_text seg)) \<Longrightarrow>
   (type_value cat, phrase rule, Some (timestamp seg)) \<in> finding_key ` set (emit_spec ts em)"
proof (induction ts arbitrary: em)
  case Nil
  then show ?case by simp
next
  case (Cons x ts)
  let ?k = "(type_value cat, phrase rule, Some (timestamp seg))"
  obtain seg' cat' rule' where x: "x = (seg', cat', rule')" by (cases x) auto
  let ?c = "str_contains (phrase rule') (lower (seg_text seg')) \<and>
      (type_value cat', phrase rule', Some (timestamp seg')) \<notin> finding_key ` set em"
  let ?em' = "if ?c then em @ [finding_of seg' cat' rule'] else em"
  have step: "emit_spec (x # ts) em = emit_spec ts ?em'"
    by (simp add: x)
  show ?case
  proof (cases "(seg, cat, rule) \<in> set ts")
    case True
    from Cons.IH [OF True Cons.prems(2)] show ?thesis
      unfolding step .
  next
    case False
    with Cons.prems(1) have e: "seg' = seg" "cat' = cat" "rule' = rule"
      by (auto simp: x)
    have "?k \<in> finding_key ` set ?em'"
    proof (cases "?k \<in> finding_key ` set em")
      case True
      then show ?thesis by auto
    next
      case False
      have "finding_key (finding_of seg cat rule) = ?k"
        by (simp add: finding_key_def finding_of_def)
      then have "?k \<in> finding_key ` set (em @ [finding_of seg cat rule])"
        by force
      with False Cons.prems(2) show ?thesis
        by (simp add: e)
    qed
    with emit_spec_keeps [of ?em' ts] show ?thesis
      unfolding step by blast
  qed
qed

lemma emit_spec_distinct:
  "distinct (map finding_key em) \<Longrightarrow> distinct (map finding_key (emit_spec ts em))"
proof (induction ts em rule: emit_spec.induct)
  case (1 emitted)
  then show ?case by simp
next
  case (2 seg cat rule rest emitted)
  then show ?case
    by (auto simp: finding_key_def finding_of_def)
qed

lemma in_rule_triples:
  "(s, c, r) \<in> set (concat (map (\<lambda>(cat, rules). map (\<lambda>rule. (seg, cat, rule)) rules) m)) \<longleftrightarrow>
   s = seg \<and> (\<exists>rules. (c, rules) \<in> set m \<and> r \<in> set rules)"
proof (induction m)
  case Nil
  show ?case by simp
next
  case (Cons item m)
  obtain cat rules where i: "item = (cat, rules)" by (cases item) auto
  show ?case
    unfolding i by (simp add: Cons.IH) blast
qed

lemma in_scan_order:
  "(seg, cat, rule) \<in> set (scan_order target) \<longleftrightarrow>
   seg \<in> set target \<and> (\<exists>rules. (cat, rules) \<in> set RULE_MAP \<and> rule \<in> set rules)"
proof (induction target)
  case Nil
  show ?case by (simp add: scan_order_def)
next
  case (Cons s target)
  show ?case
    by (simp add: scan_order_Cons in_rule_triples Cons.IH) blast
qed

lemma distinct_map_sort_key:
  "distinct (map f (sort_key k xs)) \<longleftrightarrow> distinct (map f xs)"
  by (simp add: distinct_map)

text \<open>
  Claim C3. The scan of \<open>analyze_segments\<close>, which keeps a set of seen keys, emits
  exactly what the specification's wording emits: going through the scanned fragments
  and, for each, through the rules of the catalog in order, a Finding is emitted for a
  fragment and a (category, phrase) rule iff the phrase occurs in the lowercased text
  and no Finding with the same (category, phrase, timestamp) was emitted before in the
  run; the returned list is this list, sorted. Hence every returned Finding comes from a
  scanned fragment and a catalog rule whose phrase occurs in the fragment's lowercased
  text, and carries the rule's confidence and suggestion, the full text, the phrase, and
  the fragment's speaker and timestamp; every match of a rule in a scanned fragment has a
  Finding of its category, phrase and timestamp (so one phrase at two timestamps, or two
  phrases in one fragment, give two Findings); and no two returned Findings share a key.
  \<open>str_contains\<close> is occurrence as a contiguous substring.
\<close>

theorem analyze_emits_first_match_per_key:
  "fst (scan_segments (target_segments e segs)) =
     emit_spec (scan_order (target_segments e segs)) [] \<and>
   insights (analyze_segments e segs sid) =
     sort_key insight_sort_key (emit_spec (scan_order (target_segments e segs)) []) \<and>
   (\<forall>f \<in> set (insights (analyze_segments e segs sid)).
      \<exists>seg cat rules rule.
        seg \<in> set (target_segments e segs) \<and> (cat, rules) \<in> set RULE_MAP \<and> rule \<in> set rules \<and>
        str_contains (phrase rule) (lower (seg_text seg)) \<and>
        f = \<lparr>ins_type = cat,
              ins_confidence = confidence rule,
              matched_text = seg_text seg,
              matched_phrase = phrase rule,
              ins_speaker = speaker seg,
              ins_timestamp = Some (timestamp seg),
              ins_suggestion = suggestion rule\<rparr>) \<and>
   (\<forall>seg cat rules rule.
      seg \<in> set (target_segments e segs) \<and> (cat, rules) \<in> set RULE_MAP \<and> rule \<in> set rules \<and>
      str_contains (phrase rule) (lower (seg_text seg)) \<longrightarrow>
      (\<exists>f \<in> set (insights (analyze_segments e segs sid)).
         ins_type f = cat \<and> matched_phrase f = phrase rule \<and>
         ins_timestamp f = Some (timestamp seg))) \<and>
   distinct (map finding_key (insights (analyze_segments e segs sid))) \<and>
   (\<forall>p t. str_contains p t \<longleftrightarrow> (\<exists>pre suf. t = pre @ p @ suf))"
proof -
  let ?target = "target_segments e segs"
  let ?em = "emit_spec (scan_order ?target) []"
  let ?r = "analyze_segments e segs sid"
  have a: "fst (scan_segments ?target) = ?em"
    by (rule scan_segments_spec)
  have b: "insights ?r = sort_key insight_sort_key ?em"
    by (simp add: analyze_segments_def Let_def a)
  have s: "set (insights ?r) = set ?em"
    by (simp add: b)
  have c: "\<exists>seg cat rules rule.
        seg \<in> set ?target \<and> (cat, rules) \<in> set RULE_MAP \<and> rule \<in> set rules \<and>
        str_contains (phrase rule) (lower (seg_text seg)) \<and>
        f = \<lparr>ins_type = cat, ins_confidence = confidence rule, matched_text = seg_text seg,
              matched_phrase = phrase rule, ins_speaker = speaker seg,
              ins_timestamp = Some (timestamp seg), ins_suggestion = suggestion rule\<rparr>"
    if "f \<in> set (insights ?r)" for f
  proof -
    from that s have "f \<in> set ?em" by simp
    from emit_spec_sound [OF this] obtain seg cat rule
      where m: "(seg, cat, rule) \<in> set (scan_order ?target)"
        and p: "str_contains (phrase rule) (lower (seg_text seg))"
        and f: "f = finding_of seg cat rule"
      by auto
    from m obtain rules where "seg \<in> set ?target" "(cat, rules) \<in> set RULE_MAP" "rule \<in> set rules"
      unfolding in_scan_order by blast
    with p f show ?thesis
      unfolding finding_of_def by blast
  qed
  have d: "\<exists>f \<in> set (insights ?r).
         ins_type f = cat \<and> matched_phrase f = phrase rule \<and>
         ins_timestamp f = Some (timestamp seg)"
    if "seg \<in> set ?target \<and> (cat, rules) \<in> set RULE_MAP \<and> rule \<in> set rules \<and>
        str_contains (phrase rule) (lower (seg_text seg))" for seg cat rules rule
  proof -
    from that have m: "(seg, cat, rule) \<in> set (scan_order ?target)"
      unfolding in_scan_order by blast
    from that have p: "str_contains (phrase rule) (lower (seg_text seg))" by simp
    from emit_spec_complete [OF m p, of "[]"] obtain f
      where f: "f \<in> set ?em"
        and k: "finding_key f = (type_value cat, phrase rule, Some (timestamp seg))"
      by auto
    from k have "ins_type f = cat \<and> matched_phrase f = phrase rule \<and>
        ins_timestamp f = Some (timestamp seg)"
      by (simp add: finding_key_def type_value_inj)
    with f s show ?thesis by blast
  qed
  have g: "distinct (map finding_key (insights ?r))"
    unfolding b distinct_map_sort_key by (rule emit_spec_distinct) simp
  from a b c d g str_contains_iff show ?thesis
    by blast
qed

text \<open>
  One phrase at two timestamps, two phrases in one fragment, and a second fragment
  repeating a phrase at the timestamp of the first, which is skipped.
\<close>

theorem analyze_emits_first_match_per_key_witness:
  "map (\<lambda>f. (ins_type f, matched_phrase f, ins_timestamp f, ins_confidence f, matched_text f))
     (insights (analyze_segments insight_engine
        [\<lparr>seg_text = ''Too expensive'', speaker = Some ''A'', is_user = False, timestamp = 1\<rparr>,
         \<lparr>seg_text = ''Looks good but too expensive'', speaker = Some ''B'', is_user = False,
            timestamp = 2\<rparr>,
         \<lparr>seg_text = ''too expensive'', speaker = Some ''C'', is_user = False, timestamp = 2\<rparr>]
        ''s1'')) =
     [(PRICING_OBJECTION, ''too expensive'', Some 1, 0.9, ''Too expensive''),
      (PRICING_OBJECTION, ''too expensive'', Some 2, 0.9, ''Looks good but too expensive''),
      (BUYING_SIGNAL, ''looks good'', Some 2, 0.6, ''Looks good but too expensive'')] \<and>
   distinct (map finding_key
     (insights (analyze_segments insight_engine
        [\<lparr>seg_text = ''Too expensive'', speaker = Some ''A'', is_user = False, timestamp = 1\<rparr>,
         \<lparr>seg_text = ''Looks good but too expensive'', speaker = Some ''B'', is_user = False,
            timestamp = 2\<rparr>,
         \<lparr>seg_text = ''too expensive'', speaker = Some ''C'', is_user = False, timestamp = 2\<rparr>]
        ''s1'')))"
proof -
  let ?segs =
    "[\<lparr>seg_text = ''Too expensive'', speaker = Some ''A'', is_user = False, timestamp = 1\<rparr>,
      \<lparr>seg_text = ''Looks good but too expensive'', speaker = Some ''B'', is_user = False,
         timestamp = 2\<rparr>,
      \<lparr>seg_text = ''too expensive'', speaker = Some ''C'', is_user = False, timestamp = 2\<rparr>]"
  have ev: "map (\<lambda>f. (ins_type f, matched_phrase f, ins_timestamp f, ins_confidence f, matched_text f))
      (insights (analyze_segments insight_engine ?segs ''s1'')) =
      [(PRICING_OBJECTION, ''too expensive'', Some 1, 0.9, ''Too expensive''),
       (PRICING_OBJECTION, ''too expensive'', Some 2, 0.9, ''Looks good but too expensive''),
       (BUYING_SIGNAL, ''looks good'', Some 2, 0.6, ''Looks good but too expensive'')]"
    by code_simp
  from analyze_emits_first_match_per_key [of insight_engine ?segs "''s1''"]
  have "distinct (map finding_key (insights (analyze_segments insight_engine ?segs ''s1'')))"
    by (elim conjE)
  with ev show ?thesis
    by (rule conjI)
qed

section \<open>Speaker labels\<close>

text \<open>
  Claim C7. A speaker label that consists of whitespace only is truthy, so it is
  stripped to the empty string and is not mapped to the sentinel: its fragments are
  grouped under the empty label, apart from the fragments without a label or with the
  empty label, which are grouped under \<open>UNKNOWN\<close>.
\<close>

theorem speaker_label_whitespace_only:
  "speaker_label \<lparr>seg_text = ''hello there'', speaker = Some ''  '', is_user = False,
                   timestamp = 1\<rparr> = [] \<and>
   speaker_label \<lparr>seg_text = ''hi'', speaker = None, is_user = False,
                   timestamp = 2\<rparr> = ''UNKNOWN'' \<and>
   speaker_label \<lparr>seg_text = ''fine, thanks'', speaker = Some [], is_user = False,
                   timestamp = 3\<rparr> = ''UNKNOWN'' \<and>
   map (\<lambda>s. (stat_speaker s, stat_segment_count s, word_count s))
     (get_speaker_stats
        \<lparr>session_id = ''s1'',
         segments =
           [\<lparr>seg_text = ''hello there'', speaker = Some ''  '', is_user = False, timestamp = 1\<rparr>,
            \<lparr>seg_text = ''hi'', speaker = None, is_user = False, timestamp = 2\<rparr>,
            \<lparr>seg_text = ''fine, thanks'', speaker = Some [], is_user = False, timestamp = 3\<rparr>],
         segment_count = 3,
         latest_insights = None\<rparr>) =
     [([], 1, 2), (''UNKNOWN'', 2, 3)]"
  by code_simp

section \<open>Filtering the findings\<close>

lemma catalog_confidence_positive:
  "(cat, rules) \<in> set RULE_MAP \<Longrightarrow> rule \<in> set rules \<Longrightarrow> 0 < confidence rule"
proof -
  have "list_all (\<lambda>(cat, rules). list_all (\<lambda>rule. 0 < confidence rule) rules) RULE_MAP"
    by (simp add: RULE_MAP_def PRICING_OBJECTION_RULES_def BUYING_SIGNAL_RULES_def
          COMPETITOR_MENTION_RULES_def NEXT_STEP_RULES_def STALL_TACTIC_RULES_def)
  then show "(cat, rules) \<in> set RULE_MAP \<Longrightarrow> rule \<in> set rules \<Longrightarrow> 0 < confidence rule"
    unfolding list_all_iff by blast
qed

lemma analyze_confidence_positive:
  assumes "i \<in> set (insights (analyze_segments e segs sid))"
  shows "0 < ins_confidence i"
proof -
  let ?target = "target_segments e segs"
  from assms have "i \<in> set (emit_spec (scan_order ?target) [])"
    by (simp add: analyze_segments_def Let_def scan_segments_spec)
  from emit_spec_sound [OF this] obtain seg cat rule
    where m: "(seg, cat, rule) \<in> set (scan_order ?target)" and f: "i = finding_of seg cat rule"
    by auto
  from m obtain rules where "(cat, rules) \<in> set RULE_MAP" "rule \<in> set rules"
    unfolding in_scan_order by blast
  then have "0 < confidence rule"
    by (rule catalog_confidence_positive)
  with f show ?thesis
    by (simp add: finding_of_def)
qed

lemma latest_insights_add_segments:
  "latest_insights (snd (add_segments sd segs)) = latest_insights sd"
  by (simp add: add_segments_def Let_def)

lemma exec_cache_positive:
  assumes inv: "\<And>sid sd si i. map_of st sid = Some sd \<Longrightarrow> latest_insights sd = Some si \<Longrightarrow>
                  i \<in> set (insights si) \<Longrightarrow> 0 < ins_confidence i"
    and m: "map_of (exec op st) sid = Some sd"
    and l: "latest_insights sd = Some si"
    and i: "i \<in> set (insights si)"
  shows "0 < ins_confidence i"
proof (cases op)
  case (AddSegments sid' segs)
  let ?sd0 = "case map_of st sid' of None \<Rightarrow> new_session sid' | Some sd \<Rightarrow> sd"
  from m AddSegments
  have m': "((map_of st)(sid' \<mapsto> snd (add_segments ?sd0 segs))) sid = Some sd"
    by (simp add: store_add_segments_def Let_def split_beta update_conv')
  show ?thesis
  proof (cases "sid = sid'")
    case True
    with m' have "sd = snd (add_segments ?sd0 segs)" by simp
    with l have l0: "latest_insights ?sd0 = Some si"
      by (simp add: latest_insights_add_segments)
    then obtain sd0 where "map_of st sid' = Some sd0" "latest_insights sd0 = Some si"
      by (cases "map_of st sid'") (auto simp: new_session_def)
    from inv [OF this i] show ?thesis .
  next
    case False
    with m' have "map_of st sid = Some sd" by simp
    from inv [OF this l i] show ?thesis .
  qed
next
  case (RunAnalysis sid')
  show ?thesis
  proof (cases "map_of st sid'")
    case None
    with m RunAnalysis have "map_of st sid = Some sd"
      by (simp add: run_analysis_def)
    from inv [OF this l i] show ?thesis .
  next
    case (Some session)
    let ?r = "analyze_segments insight_engine (ordered_segments session) sid'"
    from m RunAnalysis Some
    have m': "((map_of st)(sid' \<mapsto> session\<lparr>latest_insights := Some ?r\<rparr>)) sid = Some sd"
      by (simp add: run_analysis_def Let_def update_conv')
    show ?thesis
    proof (cases "sid = sid'")
      case True
      with m' l have "si = ?r" by auto
      with i show ?thesis
        by (simp add: analyze_confidence_positive)
    next
      case False
      with m' have "map_of st sid = Some sd" by simp
      from inv [OF this l i] show ?thesis .
    qed
  qed
next
  case (GetSession x)
  with m have "map_of st sid = Some sd" by simp
  from inv [OF this l i] show ?thesis .
next
  case (GetInsights x)
  with m have "map_of st sid = Some sd" by simp
  from inv [OF this l i] show ?thesis .
next
  case ListSessions
  with m have "map_of st sid = Some sd" by simp
  from inv [OF this l i] show ?thesis .
next
  case GetStats
  with m have "map_of st sid = Some sd" by simp
  from inv [OF this l i] show ?thesis .
qed

lemma reachable_cache_positive:
  "reachable st \<Longrightarrow> map_of st sid = Some sd \<Longrightarrow> latest_insights sd = Some si \<Longrightarrow>
   i \<in> set (insights si) \<Longrightarrow> 0 < ins_confidence i"
proof (induction arbitrary: sid sd si i rule: reachable.induct)
  case init
  then show ?case by simp
next
  case (step st op)
  from step.IH step.prems show ?case
    by (rule exec_cache_positive)
qed

lemma filter_pipeline:
  assumes "\<And>i. i \<in> set xs \<Longrightarrow> 0 < ins_confidence i"
  shows "(if minc > 0
          then filter (\<lambda>i. ins_confidence i \<ge> minc)
                 (case ty of None \<Rightarrow> xs | Some t \<Rightarrow> filter (\<lambda>i. ins_type i = t) xs)
          else (case ty of None \<Rightarrow> xs | Some t \<Rightarrow> filter (\<lambda>i. ins_type i = t) xs)) =
         filter (\<lambda>i. (case ty of None \<Rightarrow> True | Some t \<Rightarrow> ins_type i = t) \<and>
                      minc \<le> ins_confidence i) xs"
proof (cases "minc > 0")
  case True
  then show ?thesis
    by (cases ty) (simp_all add: conj_commute)
next
  case False
  have "minc \<le> ins_confidence i" if "i \<in> set xs" for i
    using assms [OF that] False by simp
  then have "filter (\<lambda>i. (case ty of None \<Rightarrow> True | Some t \<Rightarrow> ins_type i = t) \<and>
                      minc \<le> ins_confidence i) xs =
             filter (\<lambda>i. (case ty of None \<Rightarrow> True | Some t \<Rightarrow> ins_type i = t)) xs"
    by (intro filter_cong) auto
  with False show ?thesis
    by (cases ty) simp_all
qed

text \<open>
  Claim C9. For a session of a reachable store, \<open>get_insights\<close> of the insights
  endpoint answers from the cached Finding-Set when there is one, and from a fresh
  analysis otherwise. The response holds exactly the Findings of that set whose category
  is the requested one (when one is requested) and whose confidence is at least
  \<open>min_confidence\<close>, in the set's order, with their number as the total and a
  summary counted over the filtered Findings. With a cached set the store is unchanged;
  without one the store is the one \<open>run_analysis\<close> leaves. In both cases the
  session's cache afterwards is the unfiltered set.
\<close>

theorem api_get_insights_filters:
  assumes "reachable st" and "get_session st sid = Some session"
  shows "\<exists>base st' found.
     found = filter (\<lambda>i. (case ty of None \<Rightarrow> True | Some t \<Rightarrow> ins_type i = t) \<and>
                          min_confidence \<le> ins_confidence i) (insights base) \<and>
     api_get_insights st sid ty min_confidence =
       (Inr \<lparr>si_session_id = sid, insights = found, total_insights = int (length found),
             summary = Counter (map (\<lambda>i. type_value (ins_type i)) found)\<rparr>, st') \<and>
     (\<forall>k. map_of (Counter (map (\<lambda>i. type_value (ins_type i)) found)) k =
        (if length (filter (\<lambda>i. type_value (ins_type i) = k) found) = 0 then None
         else Some (int (length (filter (\<lambda>i. type_value (ins_type i) = k) found))))) \<and>
     (case latest_insights session of
        Some cached \<Rightarrow> base = cached \<and> st' = st
      | None \<Rightarrow> base = analyze_segments insight_engine (ordered_segments session) sid \<and>
                st' = snd (run_analysis st sid)) \<and>
     store_get_insights st' sid = Some base"
proof -
  from assms(2) have m: "map_of st sid = Some session"
    by (simp add: get_session_def)
  let ?F = "\<lambda>base. filter (\<lambda>i. (case ty of None \<Rightarrow> True | Some t \<Rightarrow> ins_type i = t) \<and>
                          min_confidence \<le> ins_confidence i) (insights base)"
  have cnt: "map_of (Counter (map (\<lambda>i. type_value (ins_type i)) xs)) k =
        (if length (filter (\<lambda>i. type_value (ins_type i) = k) xs) = 0 then None
         else Some (int (length (filter (\<lambda>i. type_value (ins_type i) = k) xs))))" for xs k
    by (simp add: map_of_Counter Counter_map_filter comp_def)
  show ?thesis
  proof (cases "latest_insights session")
    case (Some cached)
    have pos: "0 < ins_confidence i" if "i \<in> set (insights cached)" for i
      using reachable_cache_positive [OF assms(1) m Some that] .
    have g: "store_get_insights st sid = Some cached"
      using m Some by (simp add: store_get_insights_def)
    have e: "api_get_insights st sid ty min_confidence =
        (Inr \<lparr>si_session_id = sid, insights = ?F cached,
              total_insights = int (length (?F cached)),
              summary = Counter (map (\<lambda>i. type_value (ins_type i)) (?F cached))\<rparr>, st)"
      using assms(2) g
      by (simp add: api_get_insights_def Let_def filter_pipeline [OF pos])
    show ?thesis
      apply (rule exI [of _ cached], rule exI [of _ st], rule exI [of _ "?F cached"])
      apply (intro conjI allI)
          apply (rule refl)
         apply (rule e)
        apply (rule cnt)
       apply (simp add: Some)
      apply (rule g)
      done
  next
    case None
    let ?r = "analyze_segments insight_engine (ordered_segments session) sid"
    let ?st' = "AList.update sid (session\<lparr>latest_insights := Some ?r\<rparr>) st"
    have pos: "0 < ins_confidence i" if "i \<in> set (insights ?r)" for i
      using that by (rule analyze_confidence_positive)
    have g: "store_get_insights st sid = None"
      using m None by (simp add: store_get_insights_def)
    have ra: "run_analysis st sid = (Some ?r, ?st')"
      using m by (simp add: run_analysis_def Let_def)
    have g': "store_get_insights ?st' sid = Some ?r"
      by (simp add: store_get_insights_def update_conv')
    have e: "api_get_insights st sid ty min_confidence =
        (Inr \<lparr>si_session_id = sid, insights = ?F ?r,
              total_insights = int (length (?F ?r)),
              summary = Counter (map (\<lambda>i. type_value (ins_type i)) (?F ?r))\<rparr>, ?st')"
      using assms(2) g ra
      by (simp add: api_get_insights_def Let_def filter_pipeline [OF pos])
    show ?thesis
      apply (rule exI [of _ ?r], rule exI [of _ ?st'], rule exI [of _ "?F ?r"])
      apply (intro conjI allI)
          apply (rule refl)
         apply (rule e)
        apply (rule cnt)
       apply (simp add: None ra)
      apply (rule g')
      done
  qed
qed

text \<open>
  The scenario of a pricing objection (0.9) and a buying signal (0.95), analysed and
  cached, then read with \<open>min_confidence\<close> 0.92: only the buying signal is
  returned, the summary counts it alone, and the cache still holds both Findings.
\<close>

theorem api_get_insights_filters_witness:
  "reachable (exec (RunAnalysis ''s1'') (exec (AddSegments ''s1''
      [\<lparr>seg_text = ''too expensive'', speaker = None, is_user = False, timestamp = 1\<rparr>,
       \<lparr>seg_text = ''send me a proposal'', speaker = None, is_user = False, timestamp = 2\<rparr>]) [])) \<and>
   (\<exists>session. get_session (exec (RunAnalysis ''s1'') (exec (AddSegments ''s1''
      [\<lparr>seg_text = ''too expensive'', speaker = None, is_user = False, timestamp = 1\<rparr>,
       \<lparr>seg_text = ''send me a proposal'', speaker = None, is_user = False, timestamp = 2\<rparr>]) []))
      ''s1'' = Some session) \<and>
   (\<exists>r st'. api_get_insights (exec (RunAnalysis ''s1'') (exec (AddSegments ''s1''
      [\<lparr>seg_text = ''too expensive'', speaker = None, is_user = False, timestamp = 1\<rparr>,
       \<lparr>seg_text = ''send me a proposal'', speaker = None, is_user = False, timestamp = 2\<rparr>]) []))
      ''s1'' None 0.92 = (Inr r, st')) \<and>
   map (\<lambda>i. (ins_type i, ins_confidence i, ins_timestamp i))
     (insights (projr (fst (api_get_insights (exec (RunAnalysis ''s1'') (exec (AddSegments ''s1''
      [\<lparr>seg_text = ''too expensive'', speaker = None, is_user = False, timestamp = 1\<rparr>,
       \<lparr>seg_text = ''send me a proposal'', speaker = None, is_user = False, timestamp = 2\<rparr>]) []))
      ''s1'' None 0.92)))) = [(BUYING_SIGNAL, 0.95, Some 2)] \<and>
   summary (projr (fst (api_get_insights (exec (RunAnalysis ''s1'') (exec (AddSegments ''s1''
      [\<lparr>seg_text = ''too expensive'', speaker = None, is_user = False, timestamp = 1\<rparr>,
       \<lparr>seg_text = ''send me a proposal'', speaker = None, is_user = False, timestamp = 2\<rparr>]) []))
      ''s1'' None 0.92))) = [(''buying_signal'', 1)] \<and>
   map ins_confidence (insights (the (store_get_insights
     (snd (api_get_insights (exec (RunAnalysis ''s1'') (exec (AddSegments ''s1''
      [\<lparr>seg_text = ''too expensive'', speaker = None, is_user = False, timestamp = 1\<rparr>,
       \<lparr>seg_text = ''send me a proposal'', speaker = None, is_user = False, timestamp = 2\<rparr>]) []))
      ''s1'' None 0.92)) ''s1''))) = [0.9, 0.95]"
proof -
  let ?st0 = "exec (RunAnalysis ''s1'') (exec (AddSegments ''s1''
      [\<lparr>seg_text = ''too expensive'', speaker = None, is_user = False, timestamp = 1\<rparr>,
       \<lparr>seg_text = ''send me a proposal'', speaker = None, is_user = False, timestamp = 2\<rparr>]) [])"
  have r: "reachable ?st0"
    by (intro reachable.step reachable.init)
  have "get_session ?st0 ''s1'' \<noteq> None"
    by code_simp
  then obtain session where s: "get_session ?st0 ''s1'' = Some session"
    by (cases "get_session ?st0 ''s1''") simp_all
  have a: "\<exists>r st'. api_get_insights ?st0 ''s1'' None 0.92 = (Inr r, st')"
    using api_get_insights_filters [OF r s, of None "0.92"]
    apply -
    apply (elim exE conjE)
    apply (intro exI)
    apply assumption
    done
  have e1: "map (\<lambda>i. (ins_type i, ins_confidence i, ins_timestamp i))
      (insights (projr (fst (api_get_insights ?st0 ''s1'' None 0.92)))) =
      [(BUYING_SIGNAL, 0.95, Some 2)]"
    by code_simp
  have e2: "summary (projr (fst (api_get_insights ?st0 ''s1'' None 0.92))) =
      [(''buying_signal'', 1)]"
    by code_simp
  have e3: "map ins_confidence (insights (the (store_get_insights
      (snd (api_get_insights ?st0 ''s1'' None 0.92)) ''s1''))) = [0.9, 0.95]"
    by code_simp
  from s have s': "\<exists>session. get_session ?st0 ''s1'' = Some session"
    by (rule exI)
  show ?thesis
    by (intro conjI) (rule r s' a e1 e2 e3)+
qed

end
